theory Spec2Isabelle
  imports Main "HOL-Library.Word" "HOL-Library.DAList" "HOL-Library.Multiset"
begin

unbundle bit_operations_syntax

section \<open>Data model\<close>

text \<open>
  The decoded event record (\<^verbatim>\<open>type Model struct\<close>). The processing functions read the
  fields \<^verbatim>\<open>Id\<close> and \<^verbatim>\<open>Type\<close> only; the nested actor, repository and payload structs are
  never read and are left to the record's extension part. The field \<^verbatim>\<open>Id\<close> carries a
  prime because \<open>Id\<close> is the identity relation of HOL.
\<close>

record Model =
  Id' :: string
  Type :: string
  Public :: bool
  CreatedAt :: string

record Config =
  TracingEnabled :: bool
  TraceFile :: string

definition TRACE_FILE :: string where
  "TRACE_FILE = ''bloomtrace.trace.out''"

section \<open>The estimator\<close>

text \<open>
  Modelled from the spec: the estimator is the imported package
  \<^verbatim>\<open>github.com/bits-and-blooms/bloom/v3\<close>, whose code is not among the sources. The spec
  describes it as a fixed-size bit array plus several hash functions, with a bit-array size
  and a hash count fixed at construction; \<^verbatim>\<open>Insert\<close> sets the identifier's hash-derived bit
  positions, \<^verbatim>\<open>Test\<close> answers whether all of them are set, \<^verbatim>\<open>Serialize\<close> writes the
  configuration and the bit array. The bit array is kept the way the package keeps it: a
  length in bits and a slice of 64-bit words, bit \<open>i\<close> living in word \<open>i div 64\<close> at
  position \<open>i mod 64\<close>.

  The hash functions themselves are a parameter: \<open>h s i\<close> is the \<open>i\<close>-th hash value of the
  identifier \<open>s\<close>, before its reduction modulo the bit-array size.
\<close>

type_synonym hasher = "string \<Rightarrow> nat \<Rightarrow> nat"

record BitSet =
  length_b :: nat
  set_b :: "64 word list"

definition wordsNeeded :: "nat \<Rightarrow> nat" where
  "wordsNeeded i = (i + 63) div 64"

definition BitSet_New :: "nat \<Rightarrow> BitSet" where
  "BitSet_New n = \<lparr>length_b = n, set_b = replicate (wordsNeeded n) 0\<rparr>"

text \<open>A write beyond the current length grows the bit set with zero words first.\<close>

definition extendSet :: "nat \<Rightarrow> BitSet \<Rightarrow> BitSet" where
  "extendSet i bs =
     \<lparr>length_b = i + 1,
      set_b = set_b bs @ replicate (wordsNeeded (i + 1) - length (set_b bs)) 0\<rparr>"

definition BitSet_Set :: "nat \<Rightarrow> BitSet \<Rightarrow> BitSet" where
  "BitSet_Set i bs =
     (let bs' = (if i \<ge> length_b bs then extendSet i bs else bs)
      in bs'\<lparr>set_b := (set_b bs')[i div 64 := (set_b bs' ! (i div 64)) OR push_bit (i mod 64) 1]\<rparr>)"

text \<open>A read beyond the current length answers false.\<close>

definition BitSet_Test :: "nat \<Rightarrow> BitSet \<Rightarrow> bool" where
  "BitSet_Test i bs =
     (if i \<ge> length_b bs then False
      else (set_b bs ! (i div 64)) AND push_bit (i mod 64) 1 \<noteq> 0)"

record BloomFilter =
  bf_m :: nat
  bf_k :: nat
  bf_b :: BitSet

definition New :: "nat \<Rightarrow> nat \<Rightarrow> BloomFilter" where
  "New m k = \<lparr>bf_m = max 1 m, bf_k = max 1 k, bf_b = BitSet_New m\<rparr>"

text \<open>
  \<^verbatim>\<open>NewWithEstimates(n, p)\<close> derives the bit-array size and the hash count from the expected
  element count and the target false-positive probability in floating point. The
  derivation is the parameter \<open>est\<close>: \<open>est n\<close> is the pair (size, hash count) for \<open>n\<close>
  expected elements at the one probability the program uses, 0.1.
\<close>

type_synonym estimates = "nat \<Rightarrow> nat \<times> nat"

definition NewWithEstimates :: "estimates \<Rightarrow> nat \<Rightarrow> BloomFilter" where
  "NewWithEstimates est n = New (fst (est n)) (snd (est n))"

definition location :: "hasher \<Rightarrow> BloomFilter \<Rightarrow> string \<Rightarrow> nat \<Rightarrow> nat" where
  "location h f s i = h s i mod bf_m f"

definition AddString :: "hasher \<Rightarrow> string \<Rightarrow> BloomFilter \<Rightarrow> BloomFilter" where
  "AddString h s f =
     f\<lparr>bf_b := fold (\<lambda>i. BitSet_Set (location h f s i)) [0..<bf_k f] (bf_b f)\<rparr>"

definition TestString :: "hasher \<Rightarrow> string \<Rightarrow> BloomFilter \<Rightarrow> bool" where
  "TestString h s f = list_all (\<lambda>i. BitSet_Test (location h f s i) (bf_b f)) [0..<bf_k f]"

subsection \<open>Serialisation\<close>

text \<open>
  Modelled from the spec: \<^verbatim>\<open>GobEncode\<close> and its inverse belong to the same package. The
  encoding holds the configuration and then the bit array: the bit-array size and the hash
  count as big-endian 64-bit integers, then the bit set as its length in bits followed by
  its words, each a big-endian 64-bit integer. Writing to an in-memory buffer cannot fail,
  so \<open>GobEncode\<close> always answers with bytes; reading stops with an error when the bytes
  run out. The integers are unsigned 64-bit in the package and natural numbers here, so
  that a value is written as its residue modulo \<open>2 ^ 64\<close>.
\<close>

definition be64 :: "64 word \<Rightarrow> 8 word list" where
  "be64 w = map (\<lambda>i. ucast (drop_bit (8 * (7 - i)) w)) [0..<8]"

definition rd64 :: "8 word list \<Rightarrow> 64 word" where
  "rd64 bs = fold (\<lambda>x a. push_bit 8 a OR ucast x) bs 0"

definition BitSet_WriteTo :: "BitSet \<Rightarrow> 8 word list" where
  "BitSet_WriteTo bs = be64 (of_nat (length_b bs)) @ concat (map be64 (set_b bs))"

definition WriteTo :: "BloomFilter \<Rightarrow> 8 word list" where
  "WriteTo f = be64 (of_nat (bf_m f)) @ be64 (of_nat (bf_k f)) @ BitSet_WriteTo (bf_b f)"

definition GobEncode :: "BloomFilter \<Rightarrow> string + 8 word list" where
  "GobEncode f = Inr (WriteTo f)"

primrec read_words :: "nat \<Rightarrow> 8 word list \<Rightarrow> 64 word list" where
  "read_words 0 bytes = []"
| "read_words (Suc n) bytes = rd64 (take 8 bytes) # read_words n (drop 8 bytes)"

definition BitSet_ReadFrom :: "8 word list \<Rightarrow> string + BitSet" where
  "BitSet_ReadFrom bytes =
     (if length bytes < 8 then Inl ''unexpected EOF''
      else let n = unat (rd64 (take 8 bytes)); rest = drop 8 bytes
           in if length rest < 8 * wordsNeeded n then Inl ''unexpected EOF''
              else Inr \<lparr>length_b = n, set_b = read_words (wordsNeeded n) rest\<rparr>)"

definition ReadFrom :: "8 word list \<Rightarrow> string + BloomFilter" where
  "ReadFrom bytes =
     (if length bytes < 16 then Inl ''unexpected EOF''
      else case BitSet_ReadFrom (drop 16 bytes) of
             Inl e \<Rightarrow> Inl e
           | Inr bs \<Rightarrow> Inr \<lparr>bf_m = unat (rd64 (take 8 bytes)),
                            bf_k = unat (rd64 (take 8 (drop 8 bytes))),
                            bf_b = bs\<rparr>)"

definition GobDecode :: "8 word list \<Rightarrow> string + BloomFilter" where
  "GobDecode data = ReadFrom data"

section \<open>The program's state and the two record processors\<close>

text \<open>
  The three package-level variables. The Go map \<^verbatim>\<open>map[string]bool\<close> is an association
  list with distinct keys, so that its keys can be counted and iterated.
\<close>

record Globals =
  pushEventMap :: "(string, bool) alist"
  blomfil :: BloomFilter
  halfblomfil :: BloomFilter

definition init_globals :: "estimates \<Rightarrow> Globals" where
  "init_globals est =
     \<lparr>pushEventMap = DAList.empty,
      blomfil = NewWithEstimates est 12000,
      halfblomfil = NewWithEstimates est 6000\<rparr>"

definition ProcessChunkUsingMap :: "Model \<Rightarrow> Globals \<Rightarrow> Globals" where
  "ProcessChunkUsingMap md g =
     (if Type md = ''PushEvent''
      then g\<lparr>pushEventMap := DAList.update (Id' md) True (pushEventMap g)\<rparr>
      else g)"

definition ProcessChunkUsingBloom :: "hasher \<Rightarrow> Model \<Rightarrow> Globals \<Rightarrow> Globals" where
  "ProcessChunkUsingBloom h md g =
     (if Type md = ''PushEvent''
      then g\<lparr>blomfil := AddString h (Id' md) (blomfil g),
             halfblomfil := AddString h (Id' md) (halfblomfil g)\<rparr>
      else g)"

section \<open>Reconciliation\<close>

text \<open>
  \<^verbatim>\<open>Confirm\<close> ranges over the keys of the map and keeps four counters, in the order
  \<^verbatim>\<open>hitCount\<close>, \<^verbatim>\<open>missCount\<close>, \<^verbatim>\<open>halfCoount\<close>, \<^verbatim>\<open>mhalfCount\<close>. The loop body is
  \<open>Confirm_step\<close>; the four counters are what the function reports.
\<close>

type_synonym tally = "nat \<times> nat \<times> nat \<times> nat"

definition Confirm_step :: "hasher \<Rightarrow> Globals \<Rightarrow> string \<Rightarrow> tally \<Rightarrow> tally" where
  "Confirm_step h g k t =
     (case t of (hitCount, missCount, halfCoount, mhalfCount) \<Rightarrow>
        (let (hitCount, missCount) =
               (if TestString h k (blomfil g) then (hitCount + 1, missCount)
                else (hitCount, missCount + 1));
             (halfCoount, mhalfCount) =
               (if TestString h k (halfblomfil g) then (halfCoount + 1, mhalfCount)
                else (halfCoount, mhalfCount + 1))
         in (hitCount, missCount, halfCoount, mhalfCount)))"

definition keys_of :: "(string, bool) alist \<Rightarrow> string list" where
  "keys_of m = map fst (DAList.impl_of m)"

definition Confirm :: "hasher \<Rightarrow> Globals \<Rightarrow> tally" where
  "Confirm h g = fold (Confirm_step h g) (keys_of (pushEventMap g)) (0, 0, 0, 0)"

section \<open>Reading the record source\<close>

text \<open>
  What the program writes with \<^verbatim>\<open>log.Println\<close>, without the formatting: one entry for a
  record that failed to decode, one for the number of records read, one for the four
  counters of \<^verbatim>\<open>Confirm\<close>. \<^verbatim>\<open>log.Fatal\<close> and \<^verbatim>\<open>log.Fatalf\<close> end the process: a
  function that can reach one returns \<open>Inl (Fatal msg)\<close> and nothing after it runs.
\<close>

datatype log_entry = DecodingErr string | Entries nat | Tally tally

datatype fatal = Fatal string

text \<open>
  The HTTP client and the JSON decoder are outside the program: the decoder is the
  standard library's \<^verbatim>\<open>encoding/json\<close>. The result of \<^verbatim>\<open>client.Get\<close> is an error
  message or a response body, and a body is given by what the decoder makes of it.

  For the streaming readers a body is the error of the opening \<^verbatim>\<open>dec.Token()\<close>, if any,
  and the elements of the array that follow, each of one of three kinds:
  \<^item> a JSON value that decodes into a record;
  \<^item> a well-formed JSON value that does not fit the record type (a number where a string
    is expected): \<^verbatim>\<open>Decode\<close> returns an error and the decoder has read the whole value, so
    that the next call starts at the next element;
  \<^item> text that is not a JSON value (a syntax error, or a value cut off by the end of the
    input): \<^verbatim>\<open>Decode\<close> returns an error and the decoder stays where it is. It keeps the
    error and returns it from every later call, and \<^verbatim>\<open>More\<close>, which only looks at the
    next byte, goes on answering true.

  For the whole-buffer readers a body is the error of \<^verbatim>\<open>io.ReadAll\<close>, if any, and the
  result of \<^verbatim>\<open>json.Unmarshal\<close> on the bytes read.
\<close>

datatype element = Decodes Model | TypeMismatch string | Malformed string

record stream_body =
  token_err :: "string option"
  elements :: "element list"

record buffer_body =
  read_all_err :: "string option"
  unmarshal :: "string + Model list"

text \<open>
  The decoder: the error it keeps, if any, and the elements it has not got past.
  \<open>More\<close> answers whether input is left before the closing bracket; \<open>Decode\<close> returns
  the error or the record together with the decoder afterwards.
\<close>

record Decoder =
  dec_err :: "string option"
  buf :: "element list"

definition NewDecoder :: "stream_body \<Rightarrow> Decoder" where
  "NewDecoder body = \<lparr>dec_err = None, buf = elements body\<rparr>"

definition More :: "Decoder \<Rightarrow> bool" where
  "More dec = (buf dec \<noteq> [])"

definition Decode :: "Decoder \<Rightarrow> (string + Model) \<times> Decoder" where
  "Decode dec =
     (case dec_err dec of
        Some err \<Rightarrow> (Inl err, dec)
      | None \<Rightarrow>
          (case buf dec of
             [] \<Rightarrow> (Inl ''EOF'', dec\<lparr>dec_err := Some ''EOF''\<rparr>)
           | Decodes m # rest \<Rightarrow> (Inr m, dec\<lparr>buf := rest\<rparr>)
           | TypeMismatch err # rest \<Rightarrow> (Inl err, dec\<lparr>buf := rest\<rparr>)
           | Malformed err # rest \<Rightarrow> (Inl err, dec\<lparr>dec_err := Some err\<rparr>)))"

type_synonym run_state = "Globals \<times> log_entry list"

text \<open>
  The loop \<^verbatim>\<open>for dec.More() { ... }\<close> of the streaming readers, on the globals, the log
  and the local slice \<^verbatim>\<open>dataModel\<close>. Nothing in its body leaves it, so it runs for as
  long as \<open>More\<close> holds; a run that never ends is \<open>None\<close>.
\<close>

partial_function (option) stream_loop ::
  "(Model \<Rightarrow> Globals \<Rightarrow> Globals) \<Rightarrow> Decoder \<Rightarrow>
   Globals \<times> log_entry list \<times> Model list \<Rightarrow> (Globals \<times> log_entry list \<times> Model list) option" where
  "stream_loop proc dec st =
     (if More dec
      then (case Decode dec of
              (Inl err, dec') \<Rightarrow>
                stream_loop proc dec' (fst st, fst (snd st) @ [DecodingErr err], snd (snd st))
            | (Inr m, dec') \<Rightarrow>
                stream_loop proc dec' (proc m (fst st), fst (snd st), snd (snd st) @ [m]))
      else Some st)"

definition readAllStreamingInternal ::
  "string + stream_body \<Rightarrow> (Model \<Rightarrow> Globals \<Rightarrow> Globals) \<Rightarrow> run_state \<Rightarrow>
   (fatal + run_state) option" where
  "readAllStreamingInternal resp proc st =
     (case resp of
        Inl err \<Rightarrow> Some (Inl (Fatal (''ERROR FETCHING TEST DATA: '' @ err)))
      | Inr body \<Rightarrow>
          (case token_err body of
             Some err \<Rightarrow> Some (Inl (Fatal (''Token decoding error: '' @ err)))
           | None \<Rightarrow>
               (case stream_loop proc (NewDecoder body) (fst st, snd st, []) of
                  None \<Rightarrow> None
                | Some (g, lg, dataModel) \<Rightarrow> Some (Inr (g, lg @ [Entries (length dataModel)])))))"

definition readAllInMemoryInternal ::
  "string + buffer_body \<Rightarrow> (Model \<Rightarrow> Globals \<Rightarrow> Globals) \<Rightarrow> run_state \<Rightarrow> fatal + run_state" where
  "readAllInMemoryInternal resp proc st =
     (case resp of
        Inl err \<Rightarrow> Inl (Fatal (''ERROR FETCHING TEST DATA: '' @ err))
      | Inr body \<Rightarrow>
          (case read_all_err body of
             Some err \<Rightarrow> Inl (Fatal (''Error reading all data into memory: '' @ err))
           | None \<Rightarrow>
               (case unmarshal body of
                  Inl err \<Rightarrow> Inl (Fatal (''Error Unmarshalling data into memory: '' @ err))
                | Inr dataModel \<Rightarrow>
                    Inr (fold proc dataModel (fst st), snd st @ [Entries (length dataModel)]))))"

text \<open>
  The exported readers run the internal one inside a trace region when tracing is on and
  directly otherwise; \<open>traced\<close> is \<^verbatim>\<open>trace.IsEnabled()\<close>.
\<close>

definition ReadAllStreaming ::
  "bool \<Rightarrow> string + stream_body \<Rightarrow> (Model \<Rightarrow> Globals \<Rightarrow> Globals) \<Rightarrow> run_state \<Rightarrow>
   (fatal + run_state) option" where
  "ReadAllStreaming traced resp proc st =
     (if traced then readAllStreamingInternal resp proc st
      else readAllStreamingInternal resp proc st)"

definition ReadAllInMemory ::
  "bool \<Rightarrow> string + buffer_body \<Rightarrow> (Model \<Rightarrow> Globals \<Rightarrow> Globals) \<Rightarrow> run_state \<Rightarrow> fatal + run_state" where
  "ReadAllInMemory traced resp proc st =
     (if traced then readAllInMemoryInternal resp proc st
      else readAllInMemoryInternal resp proc st)"

section \<open>The process: tracing, persistence and \<^verbatim>\<open>main\<close>\<close>

text \<open>
  Everything the process meets outside itself: its command line, which file creations and
  which compressed writes fail, whether the tracer starts and closes, what the two fetches
  of the data file return, and the \<^verbatim>\<open>gob\<close> encoding of the map.
\<close>

record Env =
  args :: "string list"
  create_err :: "string \<Rightarrow> string option"
  write_err :: "string \<Rightarrow> string option"
  trace_start_err :: "string option"
  trace_close_err :: "string option"
  fetch_map_pass :: "string + stream_body"
  fetch_bloom_pass :: "string + stream_body"
  gob_map :: "(string, bool) alist \<Rightarrow> string + 8 word list"

text \<open>
  \<^verbatim>\<open>flag.Bool(name, value, usage)\<close> registers a flag and returns a pointer to a variable
  that holds the default \<open>value\<close>; the variable changes only when \<^verbatim>\<open>flag.Parse()\<close> runs.
  \<open>flag_Bool\<close> is what the pointer holds before any parse.
\<close>

definition flag_Bool :: "string \<Rightarrow> bool \<Rightarrow> bool" where
  "flag_Bool name value = value"

text \<open>
  \<open>setupTracing\<close> answers whether the tracer was started; the closure it returns in the
  program is run by \<open>main\<close> at its end and is written there.
\<close>

definition setupTracing :: "Env \<Rightarrow> Config \<Rightarrow> fatal + bool" where
  "setupTracing env cfg =
     (if \<not> TracingEnabled cfg then Inr False
      else case create_err env (TraceFile cfg) of
             Some err \<Rightarrow> Inl (Fatal (''failed to create trace output file: '' @ err))
           | None \<Rightarrow>
               (case trace_start_err env of
                  Some err \<Rightarrow> Inl (Fatal (''failed to start trace: '' @ err))
                | None \<Rightarrow> Inr True))"

text \<open>
  \<open>Save\<close> returns Go's \<^verbatim>\<open>error\<close>, \<open>None\<close> for \<^verbatim>\<open>nil\<close>. The result of \<^verbatim>\<open>fz.Write\<close> is
  dropped, and the \<^verbatim>\<open>err\<close> returned at the end is the one of \<^verbatim>\<open>os.Create\<close>.
\<close>

definition Save :: "Env \<Rightarrow> string \<Rightarrow> 8 word list \<Rightarrow> string option" where
  "Save env filename data =
     (case create_err env filename of
        Some err \<Rightarrow> Some err
      | None \<Rightarrow> (let written = write_err env filename in None))"

text \<open>
  \<open>main\<close>, with the configuration it builds first as \<open>main_cfg\<close>. The command line is
  never parsed: the program has no call of \<^verbatim>\<open>flag.Parse()\<close>, so \<open>args env\<close> is not
  read. The three results of \<open>Save\<close> are dropped. The memory statistics printed between
  the passes are left out. A run that never ends, because one of its passes does not, is
  \<open>None\<close>.
\<close>

definition main_cfg :: "Env \<Rightarrow> Config" where
  "main_cfg env =
     (let enableTracing = flag_Bool ''e'' True
      in \<lparr>TracingEnabled = enableTracing, TraceFile = TRACE_FILE\<rparr>)"

definition main :: "hasher \<Rightarrow> estimates \<Rightarrow> Env \<Rightarrow> (fatal + log_entry list) option" where
  "main h est env =
     (let cfg = main_cfg env
      in case setupTracing env cfg of
           Inl e \<Rightarrow> Some (Inl e)
         | Inr traced \<Rightarrow>
      (case ReadAllStreaming traced (fetch_map_pass env) ProcessChunkUsingMap (init_globals est, []) of
           None \<Rightarrow> None
         | Some (Inl e) \<Rightarrow> Some (Inl e)
         | Some (Inr st1) \<Rightarrow>
      (case ReadAllStreaming traced (fetch_bloom_pass env) (ProcessChunkUsingBloom h) st1 of
           None \<Rightarrow> None
         | Some (Inl e) \<Rightarrow> Some (Inl e)
         | Some (Inr (g, lg)) \<Rightarrow>
      (case GobEncode (blomfil g) of
           Inl err \<Rightarrow> Some (Inl (Fatal (''Error on gob Marshal: '' @ err)))
         | Inr blomBytes \<Rightarrow>
      (case GobEncode (halfblomfil g) of
           Inl err \<Rightarrow> Some (Inl (Fatal (''Error on gob Marshal: '' @ err)))
         | Inr halfblomBytes \<Rightarrow>
      (case gob_map env (pushEventMap g) of
           Inl err \<Rightarrow> Some (Inl (Fatal (''Error on json Marshal: '' @ err)))
         | Inr mapBytes \<Rightarrow>
      (let s1 = Save env ''mapBytes.gob'' mapBytes;
           s2 = Save env ''bloomBytes.gob'' blomBytes;
           s3 = Save env ''halfbloomBytes.gob'' halfblomBytes;
           lg' = lg @ [Tally (Confirm h g)]
       in if traced
          then (case trace_close_err env of
                  Some err \<Rightarrow> Some (Inl (Fatal (''failed to close trace file: '' @ err)))
                | None \<Rightarrow> Some (Inr lg'))
          else Some (Inr lg'))))))))"

section \<open>Invariants of the estimator\<close>

text \<open>
  The set of bit positions that are set, the well-formedness of a bit set (as many words as
  its length needs, no bit set at or beyond the length), and the well-formedness of an
  estimator (a positive bit-array size, so that the reduction of a hash value is defined,
  over a well-formed bit set).
\<close>

definition bits :: "BitSet \<Rightarrow> nat set" where
  "bits bs = {i. i div 64 < length (set_b bs) \<and> bit (set_b bs ! (i div 64)) (i mod 64)}"

definition BitSet_ok :: "BitSet \<Rightarrow> bool" where
  "BitSet_ok bs =
     (length (set_b bs) = wordsNeeded (length_b bs) \<and> bits bs \<subseteq> {..<length_b bs})"

definition bf_ok :: "BloomFilter \<Rightarrow> bool" where
  "bf_ok f = (1 \<le> bf_m f \<and> BitSet_ok (bf_b f))"

definition locations :: "hasher \<Rightarrow> BloomFilter \<Rightarrow> string \<Rightarrow> nat list" where
  "locations h f s = map (location h f s) [0..<bf_k f]"

definition isPush :: "Model \<Rightarrow> bool" where
  "isPush md = (Type md = ''PushEvent'')"

section \<open>What a streaming pass is measured against\<close>

text \<open>
  The records of a stream that decoded, in order; the errors of the elements that were
  read and did not fit; and whether a decoder is at, or will reach, a point it does not
  get past.
\<close>

fun decoded_records :: "element list \<Rightarrow> Model list" where
  "decoded_records [] = []"
| "decoded_records (Decodes m # es) = m # decoded_records es"
| "decoded_records (e # es) = decoded_records es"

fun decode_failures :: "element list \<Rightarrow> string list" where
  "decode_failures [] = []"
| "decode_failures (TypeMismatch err # es) = err # decode_failures es"
| "decode_failures (e # es) = decode_failures es"

fun malformed :: "element \<Rightarrow> bool" where
  "malformed (Malformed err) = True"
| "malformed e = False"

definition stalls :: "Decoder \<Rightarrow> bool" where
  "stalls dec = ((dec_err dec \<noteq> None \<and> buf dec \<noteq> []) \<or> list_ex malformed (buf dec))"

section \<open>Concrete inputs\<close>

text \<open>
  A small hash function, small estimator sizes, the three records of the spec's example
  and the environments of three runs: one whose command line asks for no tracing, one
  whose persistence fails, and one whose data file has a malformed record in the middle,
  \<^verbatim>\<open>[{"id":"1","type":"PushEvent"},{"id": tru},{"id":"333","type":"PushEvent"}]\<close>. A
  second stream has a record of the wrong type in that place, \<^verbatim>\<open>{"id": 22}\<close>.
\<close>

definition demo_hash :: hasher where
  "demo_hash s i = length s * 7 + i * 5"

definition demo_est :: estimates where
  "demo_est n = (if n = 12000 then (64, 2) else (32, 2))"

definition rec1 :: Model where
  "rec1 = \<lparr>Id' = ''1'', Type = ''PushEvent'', Public = True, CreatedAt = ''2015-01-01''\<rparr>"

definition rec2 :: Model where
  "rec2 = \<lparr>Id' = ''22'', Type = ''WatchEvent'', Public = True, CreatedAt = ''2015-01-01''\<rparr>"

definition rec3 :: Model where
  "rec3 = \<lparr>Id' = ''333'', Type = ''PushEvent'', Public = True, CreatedAt = ''2015-01-01''\<rparr>"

definition demo_body :: stream_body where
  "demo_body = \<lparr>token_err = None, elements = [Decodes rec1, Decodes rec2, Decodes rec3]\<rparr>"

definition mistyped_body :: stream_body where
  "mistyped_body =
     \<lparr>token_err = None,
      elements = [Decodes rec1, TypeMismatch ''cannot unmarshal number into string'', Decodes rec3]\<rparr>"

definition malformed_body :: stream_body where
  "malformed_body =
     \<lparr>token_err = None,
      elements = [Decodes rec1, Malformed ''invalid character in literal true'', Decodes rec3]\<rparr>"

definition broken_buffer :: buffer_body where
  "broken_buffer = \<lparr>read_all_err = None, unmarshal = Inl ''unexpected value''\<rparr>"

definition demo_env :: Env where
  "demo_env =
     \<lparr>args = [],
      create_err = (\<lambda>f. None),
      write_err = (\<lambda>f. None),
      trace_start_err = None,
      trace_close_err = None,
      fetch_map_pass = Inr demo_body,
      fetch_bloom_pass = Inr demo_body,
      gob_map = (\<lambda>m. Inr [])\<rparr>"

definition env_malformed :: Env where
  "env_malformed = demo_env\<lparr>fetch_map_pass := Inr malformed_body, fetch_bloom_pass := Inr malformed_body\<rparr>"

definition env_flag_off :: Env where
  "env_flag_off = demo_env\<lparr>args := [''-e=false'']\<rparr>"

definition env_save_fails :: Env where
  "env_save_fails =
     demo_env\<lparr>create_err := (\<lambda>f. if f = ''mapBytes.gob'' then Some ''permission denied'' else None),
              write_err := (\<lambda>f. if f = ''bloomBytes.gob'' then Some ''no space left on device'' else None)\<rparr>"

section \<open>Bit sets\<close>

lemma wordsNeeded_mono: "a \<le> b \<Longrightarrow> wordsNeeded a \<le> wordsNeeded b"
  by (simp add: wordsNeeded_def div_le_mono)

lemma div64_lt_wordsNeeded: "i < n \<Longrightarrow> i div 64 < wordsNeeded n"
  unfolding wordsNeeded_def by linarith

lemma wordsNeeded_div64: "j div 64 < wordsNeeded n \<longleftrightarrow> j div 64 * 64 < n"
  unfolding wordsNeeded_def by linarith

lemma BitSet_Test_bits: "BitSet_ok bs \<Longrightarrow> BitSet_Test i bs \<longleftrightarrow> i \<in> bits bs"
  unfolding BitSet_Test_def BitSet_ok_def bits_def
  by (auto simp: bit_iff_and_push_bit_not_eq_0 div64_lt_wordsNeeded)

lemma BitSet_New_ok: "BitSet_ok (BitSet_New n)"
  unfolding BitSet_ok_def BitSet_New_def bits_def by auto

lemma bits_BitSet_New: "bits (BitSet_New n) = {}"
  unfolding BitSet_New_def bits_def by auto

lemma extendSet_bits:
  assumes "BitSet_ok bs" "length_b bs \<le> i"
  shows "bits (extendSet i bs) = bits bs"
proof -
  have le: "length (set_b bs) \<le> wordsNeeded (i + 1)"
    using assms by (simp add: BitSet_ok_def wordsNeeded_mono)
  have "j \<in> bits (extendSet i bs) \<longleftrightarrow> j \<in> bits bs" for j
  proof (cases "j div 64 < length (set_b bs)")
    case True
    then show ?thesis using le by (simp add: bits_def extendSet_def nth_append)
  next
    case False
    then have "j \<notin> bits bs" by (simp add: bits_def)
    moreover have "j \<notin> bits (extendSet i bs)"
      using False le by (auto simp: bits_def extendSet_def nth_append)
    ultimately show ?thesis by simp
  qed
  then show ?thesis by blast
qed

lemma extendSet_ok:
  assumes "BitSet_ok bs" "length_b bs \<le> i"
  shows "BitSet_ok (extendSet i bs)"
proof -
  have le: "length (set_b bs) \<le> wordsNeeded (i + 1)"
    using assms by (simp add: BitSet_ok_def wordsNeeded_mono)
  have "bits (extendSet i bs) \<subseteq> {..<i + 1}"
    using assms extendSet_bits[OF assms] by (auto simp: BitSet_ok_def)
  moreover have "length (set_b (extendSet i bs)) = wordsNeeded (i + 1)"
    using le by (simp add: extendSet_def)
  ultimately show ?thesis by (simp add: BitSet_ok_def extendSet_def)
qed

lemma bit_or_one_bit:
  fixes x :: "64 word"
  assumes "a < 64"
  shows "bit (x OR 2 ^ a) n \<longleftrightarrow> bit x n \<or> n = a"
  using assms by (auto simp: bit_simps)

lemma set_word_bits:
  assumes "BitSet_ok bs" "i < length_b bs"
  shows "bits (bs\<lparr>set_b := (set_b bs)[i div 64 := (set_b bs ! (i div 64)) OR push_bit (i mod 64) 1]\<rparr>)
         = insert i (bits bs)"
proof -
  have w: "i div 64 < length (set_b bs)"
    using assms by (simp add: BitSet_ok_def div64_lt_wordsNeeded)
  have eq: "j = i" if "j div 64 = i div 64" "j mod 64 = i mod 64" for j :: nat
    using that by (metis div_mult_mod_eq)
  have m: "i mod 64 < 64" by simp
  have "j \<in> bits (bs\<lparr>set_b := (set_b bs)[i div 64 := (set_b bs ! (i div 64)) OR push_bit (i mod 64) 1]\<rparr>)
        \<longleftrightarrow> j = i \<or> j \<in> bits bs" for j
  proof (cases "j div 64 = i div 64")
    case True
    then show ?thesis
      using w eq[of j] by (auto simp: bits_def bit_or_one_bit[OF m])
  next
    case False
    then show ?thesis by (auto simp: bits_def)
  qed
  then show ?thesis by blast
qed

lemma BitSet_Set_bits: "BitSet_ok bs \<Longrightarrow> bits (BitSet_Set i bs) = insert i (bits bs)"
  unfolding BitSet_Set_def Let_def
  using set_word_bits[of "extendSet i bs" i] set_word_bits[of bs i]
    extendSet_ok[of bs i] extendSet_bits[of bs i]
  by (auto simp: extendSet_def)

lemma BitSet_Set_length: "length_b (BitSet_Set i bs) = max (length_b bs) (Suc i)"
  unfolding BitSet_Set_def Let_def by (auto simp: extendSet_def)

lemma BitSet_Set_ok: 
  assumes "BitSet_ok bs" shows "BitSet_ok (BitSet_Set i bs)"
proof -
  have "length (set_b (BitSet_Set i bs)) = wordsNeeded (length_b (BitSet_Set i bs))"
    using assms extendSet_ok[of bs i]
    unfolding BitSet_Set_def Let_def BitSet_ok_def by (auto simp: extendSet_def)
  moreover have "bits (BitSet_Set i bs) \<subseteq> {..<length_b (BitSet_Set i bs)}"
    using assms by (auto simp: BitSet_Set_bits BitSet_Set_length BitSet_ok_def)
  ultimately show ?thesis by (simp add: BitSet_ok_def)
qed

lemma BitSet_eqI:
  assumes "BitSet_ok a" "BitSet_ok b" "length_b a = length_b b" "bits a = bits b"
  shows "a = b"
proof -
  have len: "length (set_b a) = length (set_b b)"
    using assms by (simp add: BitSet_ok_def)
  have "set_b a ! j = set_b b ! j" if j: "j < length (set_b a)" for j
  proof (rule bit_word_eqI)
    fix n assume n: "n < LENGTH(64)"
    then have "(j * 64 + n) div 64 = j" "(j * 64 + n) mod 64 = n" by simp_all
    then have "bit (set_b a ! j) n \<longleftrightarrow> j * 64 + n \<in> bits a"
      "bit (set_b b ! j) n \<longleftrightarrow> j * 64 + n \<in> bits b"
      using j len unfolding bits_def by simp_all
    then show "bit (set_b a ! j) n \<longleftrightarrow> bit (set_b b ! j) n"
      using assms(4) by simp
  qed
  then have "set_b a = set_b b" using len by (simp add: list_eq_iff_nth_eq)
  then show ?thesis using assms(3) by simp
qed

lemma fold_Set_ok: "BitSet_ok bs \<Longrightarrow> BitSet_ok (fold BitSet_Set locs bs)"
  by (induction locs arbitrary: bs) (simp_all add: BitSet_Set_ok)

lemma fold_Set_bits: "BitSet_ok bs \<Longrightarrow> bits (fold BitSet_Set locs bs) = bits bs \<union> set locs"
  by (induction locs arbitrary: bs) (simp_all add: BitSet_Set_ok BitSet_Set_bits)

lemma fold_Set_length_le:
  "length_b (fold BitSet_Set locs bs) \<le> n \<longleftrightarrow> length_b bs \<le> n \<and> (\<forall>i \<in> set locs. i < n)"
  by (induction locs arbitrary: bs) (auto simp: BitSet_Set_length)

lemma nat_eq_by_le: "(\<And>n. a \<le> n \<longleftrightarrow> b \<le> n) \<Longrightarrow> a = (b::nat)"
  by (meson order_refl order_antisym)

section \<open>Insertion and test\<close>

lemma AddString_alt:
  "AddString h s f = f\<lparr>bf_b := fold BitSet_Set (locations h f s) (bf_b f)\<rparr>"
  by (simp add: AddString_def locations_def fold_map comp_def)

lemma AddString_m [simp]: "bf_m (AddString h s f) = bf_m f"
  by (simp add: AddString_def)

lemma AddString_k [simp]: "bf_k (AddString h s f) = bf_k f"
  by (simp add: AddString_def)

lemma locations_AddString [simp]: "locations h (AddString h t f) s = locations h f s"
  by (simp add: locations_def location_def)

lemma New_ok: "bf_ok (New m k)"
  by (simp add: bf_ok_def New_def BitSet_New_ok)

lemma AddString_ok: "bf_ok f \<Longrightarrow> bf_ok (AddString h s f)"
  by (simp add: bf_ok_def AddString_alt fold_Set_ok)

lemma AddString_bits:
  "bf_ok f \<Longrightarrow> bits (bf_b (AddString h s f)) = bits (bf_b f) \<union> set (locations h f s)"
  by (simp add: bf_ok_def AddString_alt fold_Set_bits)

lemma TestString_iff:
  "bf_ok f \<Longrightarrow> TestString h s f \<longleftrightarrow> set (locations h f s) \<subseteq> bits (bf_b f)"
  by (auto simp: bf_ok_def TestString_def locations_def list_all_iff BitSet_Test_bits)

lemma fold_AddString_ok: "bf_ok f \<Longrightarrow> bf_ok (fold (AddString h) ids f)"
  by (induction ids arbitrary: f) (simp_all add: AddString_ok)

lemma fold_AddString_m [simp]: "bf_m (fold (AddString h) ids f) = bf_m f"
  by (induction ids arbitrary: f) simp_all

lemma fold_AddString_k [simp]: "bf_k (fold (AddString h) ids f) = bf_k f"
  by (induction ids arbitrary: f) simp_all

lemma locations_fold_AddString [simp]:
  "locations h (fold (AddString h) ids f) s = locations h f s"
  by (induction ids arbitrary: f) simp_all

lemma fold_AddString_bits:
  "bf_ok f \<Longrightarrow>
   bits (bf_b (fold (AddString h) ids f)) = bits (bf_b f) \<union> (\<Union>s \<in> set ids. set (locations h f s))"
  by (induction ids arbitrary: f) (auto simp: AddString_ok AddString_bits)

lemma AddString_length_le:
  "length_b (bf_b (AddString h s f)) \<le> n \<longleftrightarrow>
   length_b (bf_b f) \<le> n \<and> (\<forall>i \<in> set (locations h f s). i < n)"
  by (simp add: AddString_alt fold_Set_length_le)

lemma fold_AddString_length_le:
  "length_b (bf_b (fold (AddString h) ids f)) \<le> n \<longleftrightarrow>
   length_b (bf_b f) \<le> n \<and> (\<forall>s \<in> set ids. \<forall>i \<in> set (locations h f s). i < n)"
  by (induction ids arbitrary: f) (auto simp: AddString_length_le)

lemma TestString_after_add:
  assumes "bf_ok f" "s \<in> set ids"
  shows "TestString h s (fold (AddString h) ids f)"
  using assms by (auto simp: TestString_iff fold_AddString_ok fold_AddString_bits)

section \<open>Encoding and decoding\<close>

lemma upt8: "[0..<8] = [0,1,2,3,4,5,6,7]"
  by (simp add: upt_rec)

lemma length_be64 [simp]: "length (be64 w) = 8"
  by (simp add: be64_def)

lemma rd64_step:
  fixes w :: "64 word"
  shows "push_bit 8 (drop_bit (n + 8) w) OR ucast (ucast (drop_bit n w) :: 8 word) = drop_bit n w"
proof (rule bit_word_eqI)
  fix j assume "j < LENGTH(64)"
  then show "bit (push_bit 8 (drop_bit (n + 8) w) OR ucast (ucast (drop_bit n w) :: 8 word)) j
             \<longleftrightarrow> bit (drop_bit n w) j"
    by (cases "j < 8") (auto simp: bit_simps add.commute add.left_commute)
qed

lemma be64_explicit:
  "be64 w = [ucast (drop_bit 56 w), ucast (drop_bit 48 w), ucast (drop_bit 40 w),
             ucast (drop_bit 32 w), ucast (drop_bit 24 w), ucast (drop_bit 16 w),
             ucast (drop_bit 8 w), ucast w]"
  by (simp add: be64_def upt8)

lemma rd64_be64 [simp]: "rd64 (be64 w) = w"
proof -
  have z: "drop_bit 64 w = 0" by (simp add: drop_bit_eq_zero_iff_not_bit_last) 
  have s: "push_bit 8 (drop_bit (n + 8) w) OR ucast (ucast (drop_bit n w) :: 8 word) = drop_bit n w" for n
    by (rule rd64_step)
  have "rd64 (be64 w) = drop_bit 0 w"
    unfolding be64_explicit rd64_def fold_simps
    using s[of 56] s[of 48] s[of 40] s[of 32] s[of 24] s[of 16] s[of 8] s[of 0] z
    by simp
  then show ?thesis by simp
qed

lemma read_words_concat:
  "read_words (length ws) (concat (map be64 ws) @ rest) = ws"
  by (induction ws) simp_all

lemma length_concat_be64 [simp]: "length (concat (map be64 ws)) = 8 * length ws"
  by (induction ws) simp_all

lemma unat_u64: "n < 2 ^ 64 \<Longrightarrow> unat (word_of_nat n :: 64 word) = n"
  by (simp add: unat_of_nat)

lemma BitSet_roundtrip:
  assumes "BitSet_ok bs" "length_b bs < 2 ^ 64"
  shows "BitSet_ReadFrom (BitSet_WriteTo bs) = Inr bs"
proof -
  have n: "unat (word_of_nat (length_b bs) :: 64 word) = length_b bs"
    using assms(2) by (rule unat_u64)
  have w: "wordsNeeded (length_b bs) = length (set_b bs)"
    using assms(1) by (simp add: BitSet_ok_def)
  have r: "read_words (length (set_b bs)) (concat (map be64 (set_b bs))) = set_b bs"
    using read_words_concat[of "set_b bs" "[]"] by simp
  show ?thesis
    unfolding BitSet_ReadFrom_def BitSet_WriteTo_def
    by (simp add: n w r Let_def)
qed

lemma GobDecode_GobEncode:
  assumes "bf_ok f" "bf_m f < 2 ^ 64" "bf_k f < 2 ^ 64" "length_b (bf_b f) < 2 ^ 64"
  shows "GobDecode (WriteTo f) = Inr f"
proof -
  have b: "BitSet_ReadFrom (BitSet_WriteTo (bf_b f)) = Inr (bf_b f)"
    using assms by (simp add: BitSet_roundtrip bf_ok_def)
  have l: "8 \<le> length (BitSet_WriteTo (bf_b f))"
    by (simp add: BitSet_WriteTo_def)
  have m: "unat (word_of_nat (bf_m f) :: 64 word) = bf_m f"
    using assms(2) by (rule unat_u64)
  have k: "unat (word_of_nat (bf_k f) :: 64 word) = bf_k f"
    using assms(3) by (rule unat_u64)
  show ?thesis
    unfolding GobDecode_def ReadFrom_def WriteTo_def
    using l by (simp add: b m k)
qed

section \<open>The processors and the reconciliation\<close>

lemma card_keys: "card (dom (DAList.lookup m)) = length (keys_of m)"
proof -
  have "dom (DAList.lookup m) = set (keys_of m)"
    by (simp add: keys_of_def DAList.lookup.rep_eq dom_map_of_conv_image_fst)
  moreover have "distinct (keys_of m)"
    by (simp add: keys_of_def)
  ultimately show ?thesis by (simp add: distinct_card)
qed

lemma Confirm_step_sums:
  "fst (Confirm_step h g k t) + fst (snd (Confirm_step h g k t)) = fst t + fst (snd t) + 1"
  "fst (snd (snd (Confirm_step h g k t))) + snd (snd (snd (Confirm_step h g k t)))
     = fst (snd (snd t)) + snd (snd (snd t)) + 1"
  by (cases t; simp add: Confirm_step_def)+

lemma Confirm_fold_sums:
  "fst (fold (Confirm_step h g) ks t) + fst (snd (fold (Confirm_step h g) ks t))
     = fst t + fst (snd t) + length ks"
  "fst (snd (snd (fold (Confirm_step h g) ks t))) + snd (snd (snd (fold (Confirm_step h g) ks t)))
     = fst (snd (snd t)) + snd (snd (snd t)) + length ks"
  by (induction ks arbitrary: t) (simp_all add: Confirm_step_sums)

lemma Confirm_fold_all_hit:
  assumes "\<forall>k \<in> set ks. TestString h k (blomfil g) \<and> TestString h k (halfblomfil g)"
  shows "fold (Confirm_step h g) ks (a, b, c, d) = (a + length ks, b, c + length ks, d)"
  using assms by (induction ks arbitrary: a b c d) (simp_all add: Confirm_step_def)

lemma fold_Map_globals:
  "blomfil (fold ProcessChunkUsingMap rs g) = blomfil g"
  "halfblomfil (fold ProcessChunkUsingMap rs g) = halfblomfil g"
  by (induction rs arbitrary: g) (simp_all add: ProcessChunkUsingMap_def)

lemma Map_step_lookup:
  "DAList.lookup (pushEventMap (ProcessChunkUsingMap r g)) =
   (\<lambda>k. if isPush r \<and> k = Id' r then Some True else DAList.lookup (pushEventMap g) k)"
  by (auto simp: ProcessChunkUsingMap_def isPush_def DAList.lookup_update fun_eq_iff)

lemma fold_Map_lookup:
  "DAList.lookup (pushEventMap (fold ProcessChunkUsingMap rs g)) =
   (\<lambda>k. if k \<in> Id' ` set (filter isPush rs) then Some True else DAList.lookup (pushEventMap g) k)"
proof (induction rs arbitrary: g)
  case Nil
  then show ?case by simp
next
  case (Cons r rs)
  show ?case
    by (auto simp: Cons Map_step_lookup fun_eq_iff)
qed

lemma fold_Map_keys:
  "set (keys_of (pushEventMap (fold ProcessChunkUsingMap rs g)))
   = set (keys_of (pushEventMap g)) \<union> Id' ` set (filter isPush rs)"
proof -
  have k: "set (keys_of m) = dom (DAList.lookup m)" for m
    by (simp add: keys_of_def DAList.lookup.rep_eq dom_map_of_conv_image_fst)
  show ?thesis
    unfolding k fold_Map_lookup by (auto split: if_splits)
qed

lemma fold_Bloom_globals:
  "pushEventMap (fold (ProcessChunkUsingBloom h) rs g) = pushEventMap g"
  "blomfil (fold (ProcessChunkUsingBloom h) rs g)
     = fold (AddString h) (map Id' (filter isPush rs)) (blomfil g)"
  "halfblomfil (fold (ProcessChunkUsingBloom h) rs g)
     = fold (AddString h) (map Id' (filter isPush rs)) (halfblomfil g)"
  by (induction rs arbitrary: g) (simp_all add: ProcessChunkUsingBloom_def isPush_def)

lemma init_globals_simps:
  "pushEventMap (init_globals est) = DAList.empty"
  "blomfil (init_globals est) = NewWithEstimates est 12000"
  "halfblomfil (init_globals est) = NewWithEstimates est 6000"
  by (simp_all add: init_globals_def)

lemma NewWithEstimates_ok: "bf_ok (NewWithEstimates est n)"
  by (simp add: NewWithEstimates_def New_ok)

lemma keys_of_empty: "keys_of DAList.empty = []"
  by (simp add: keys_of_def DAList.empty.rep_eq)

lemma fold_AddString_cong:
  assumes "bf_ok f" "set ids = set ids'"
  shows "fold (AddString h) ids f = fold (AddString h) ids' f"
proof (rule BloomFilter.equality)
  let ?a = "fold (AddString h) ids f" and ?b = "fold (AddString h) ids' f"
  have ok: "BitSet_ok (bf_b ?a)" "BitSet_ok (bf_b ?b)"
    using fold_AddString_ok[OF assms(1)] by (simp_all add: bf_ok_def)
  have len: "length_b (bf_b ?a) = length_b (bf_b ?b)"
    by (rule nat_eq_by_le) (simp add: fold_AddString_length_le assms(2))
  have bts: "bits (bf_b ?a) = bits (bf_b ?b)"
    by (simp add: fold_AddString_bits[OF assms(1)] assms(2))
  show "bf_b ?a = bf_b ?b"
    using ok len bts by (rule BitSet_eqI)
qed simp_all

lemma AddString_repeat:
  assumes "bf_ok f" "1 \<le> N"
  shows "(AddString h s ^^ N) f = AddString h s f"
proof -
  have "set (replicate N s) = set [s]" using assms(2) by auto
  then have "fold (AddString h) (replicate N s) f = fold (AddString h) [s] f"
    by (rule fold_AddString_cong[OF assms(1)])
  then show ?thesis by (simp add: fold_replicate)
qed

lemma set_filter_mset: "mset rs' = mset rs \<Longrightarrow> set (filter P rs') = set (filter P rs)"
  by (metis mset_filter set_mset_mset)

lemma length_b_reachable:
  "length_b (bf_b (fold (AddString h) ids (New m k))) \<le> max 1 m"
proof -
  have "i < max 1 m" if "i \<in> set (locations h (New m k) s)" for i s
    using that by (auto simp: locations_def location_def New_def)
  then show ?thesis
    by (simp add: fold_AddString_length_le) (simp add: New_def BitSet_New_def)
qed

lemma filter_isPush: "filter (\<lambda>r. Type r = ''PushEvent'') rs = filter isPush rs"
  by (simp add: isPush_def[abs_def])

lemma rec_simps:
  "Type rec1 = ''PushEvent''" "Type rec2 = ''WatchEvent''" "Type rec3 = ''PushEvent''"
  "Id' rec1 = ''1''" "Id' rec2 = ''22''" "Id' rec3 = ''333''"
  by (simp_all add: rec1_def rec2_def rec3_def)

lemma stalls_Decode:
  assumes "stalls dec"
  shows "More dec" and "stalls (snd (Decode dec))"
proof -
  show "More dec"
    using assms by (auto simp: stalls_def More_def)
  show "stalls (snd (Decode dec))"
  proof (cases "dec_err dec")
    case (Some err)
    then show ?thesis using assms by (simp add: Decode_def)
  next
    case None
    then obtain e es where b: "buf dec = e # es"
      using assms by (cases "buf dec") (auto simp: stalls_def)
    show ?thesis
      using assms None b by (cases e) (auto simp: stalls_def Decode_def)
  qed
qed

lemma stream_loop_Some_not_stalls:
  assumes "stream_loop proc dec st = Some r"
  shows "\<not> stalls dec"
proof (rule stream_loop.raw_induct[where P = "\<lambda>proc dec st r. \<not> stalls dec", OF _ assms],
       goal_cases)
  case (1 loop proc dec st r)
  show ?case
  proof
    assume s: "stalls dec"
    then have m: "More dec" and s': "stalls (snd (Decode dec))"
      by (rule stalls_Decode)+
    obtain res dec' where d: "Decode dec = (res, dec')"
      by (cases "Decode dec")
    from 1(2) m d have "\<exists>st'. loop proc dec' st' = Some r"
      by (cases res) auto
    then obtain st' where "loop proc dec' st' = Some r" ..
    then have "\<not> stalls dec'" by (rule 1(1))
    with s' d show False by simp
  qed
qed

lemma stream_loop_stalls: "stalls dec \<Longrightarrow> stream_loop proc dec st = None"
  using stream_loop_Some_not_stalls[of proc dec st] by (cases "stream_loop proc dec st") auto

lemma stream_loop_clean:
  assumes "dec_err dec = None" "\<not> list_ex malformed (buf dec)"
  shows "stream_loop proc dec (g, lg, dm)
         = Some (fold proc (decoded_records (buf dec)) g,
                 lg @ map DecodingErr (decode_failures (buf dec)),
                 dm @ decoded_records (buf dec))"
  using assms
proof (induction "buf dec" arbitrary: dec g lg dm)
  case Nil
  then show ?case
    by (subst stream_loop.simps) (simp add: More_def)
next
  case (Cons e es)
  let ?dec' = "dec\<lparr>buf := es\<rparr>"
  have b: "buf dec = e # es" using Cons.hyps(2) by simp
  have ih: "stream_loop proc ?dec' (g', lg', dm')
            = Some (fold proc (decoded_records es) g',
                    lg' @ map DecodingErr (decode_failures es),
                    dm' @ decoded_records es)" for g' lg' dm'
    using Cons.hyps(1)[of ?dec' g' lg' dm'] Cons.prems b by simp
  show ?case
  proof (cases e)
    case (Decodes m)
    then have "Decode dec = (Inr m, ?dec')"
      using Cons.prems(1) b by (simp add: Decode_def)
    then show ?thesis
      using b Decodes by (subst stream_loop.simps) (simp add: More_def ih)
  next
    case (TypeMismatch err)
    then have "Decode dec = (Inl err, ?dec')"
      using Cons.prems(1) b by (simp add: Decode_def)
    then show ?thesis
      using b TypeMismatch by (subst stream_loop.simps) (simp add: More_def ih)
  next
    case (Malformed err)
    then show ?thesis using Cons.prems(2) b by simp
  qed
qed

lemma stream_skips_mistyped:
  assumes "token_err body = None" "\<not> list_ex malformed (elements body)"
  shows "readAllStreamingInternal (Inr body) proc (g, lg)
         = Some (Inr (fold proc (decoded_records (elements body)) g,
                      lg @ map DecodingErr (decode_failures (elements body))
                         @ [Entries (length (decoded_records (elements body)))]))"
  using assms stream_loop_clean[of "NewDecoder body" proc g lg "[]"]
  by (simp add: readAllStreamingInternal_def NewDecoder_def)

lemma stream_stalls_on_malformed:
  assumes "token_err body = None" "list_ex malformed (elements body)"
  shows "readAllStreamingInternal (Inr body) proc st = None"
proof -
  have "stalls (NewDecoder body)"
    using assms(2) by (simp add: stalls_def NewDecoder_def)
  then have "stream_loop proc (NewDecoder body) (fst st, snd st, []) = None"
    by (rule stream_loop_stalls)
  then show ?thesis
    using assms(1) by (simp add: readAllStreamingInternal_def)
qed

lemma buffer_decode_failure_fatal:
  assumes "read_all_err body = None" "unmarshal body = Inl err"
  shows "readAllInMemoryInternal (Inr body) proc st
         = Inl (Fatal (''Error Unmarshalling data into memory: '' @ err))"
  using assms by (simp add: readAllInMemoryInternal_def)

lemma main_ignores_args: "main h est (env\<lparr>args := a\<rparr>) = main h est env"
  by (simp add: main_def main_cfg_def setupTracing_def Save_def Let_def
        cong: sum.case_cong option.case_cong prod.case_cong if_cong)

lemma Save_drops_write_error:
  "create_err env filename = None \<Longrightarrow> Save env filename data = None"
  by (simp add: Save_def)

text \<open>
  A Go map is ranged over in no fixed order. The counters do not depend on it: any two
  orders of the same keys give the same four numbers, so that ranging over the keys in
  the order of the association list loses nothing.
\<close>

lemma Confirm_step_commute:
  "Confirm_step h g x \<circ> Confirm_step h g y = Confirm_step h g y \<circ> Confirm_step h g x"
  by (auto simp: fun_eq_iff Confirm_step_def)

lemma Confirm_order_irrelevant:
  assumes "mset ks = mset ks'"
  shows "fold (Confirm_step h g) ks t = fold (Confirm_step h g) ks' t"
proof -
  have "fold (Confirm_step h g) ks = fold (Confirm_step h g) ks'"
    using Confirm_step_commute assms by (rule fold_multiset_equiv)
  then show ?thesis by simp
qed

section \<open>The claims\<close>

text \<open>
  Claim C10. Whatever the exact set and the two estimators hold, the four counters of
  \<^verbatim>\<open>Confirm\<close> split the keys of the exact set twice: the hits and misses of the full
  estimator add up to the number of keys, and so do those of the half estimator.
\<close>

theorem Confirm_tallies_partition:
  "(case Confirm h g of
      (hitCount, missCount, halfCoount, mhalfCount) \<Rightarrow>
        hitCount + missCount = card (dom (DAList.lookup (pushEventMap g))) \<and>
        halfCoount + mhalfCount = card (dom (DAList.lookup (pushEventMap g))))"
  using Confirm_fold_sums[where h = h and g = g and ks = "keys_of (pushEventMap g)" and t = "(0, 0, 0, 0)"]
  by (auto simp: Confirm_def card_keys split: prod.splits)

text \<open>
  Claim C1. After a pass of \<^verbatim>\<open>ProcessChunkUsingMap\<close> and a pass of
  \<^verbatim>\<open>ProcessChunkUsingBloom\<close> over the same records, starting from the initial state,
  \<^verbatim>\<open>Confirm\<close> counts no miss for either estimator and as many hits as the exact set has
  keys.
\<close>

theorem Confirm_zero_miss:
  "Confirm h (fold (ProcessChunkUsingBloom h) rs (fold ProcessChunkUsingMap rs (init_globals est)))
   = (card (dom (DAList.lookup (pushEventMap
        (fold (ProcessChunkUsingBloom h) rs (fold ProcessChunkUsingMap rs (init_globals est)))))),
      0,
      card (dom (DAList.lookup (pushEventMap
        (fold (ProcessChunkUsingBloom h) rs (fold ProcessChunkUsingMap rs (init_globals est)))))),
      0)"
proof -
  let ?g1 = "fold ProcessChunkUsingMap rs (init_globals est)"
  let ?g = "fold (ProcessChunkUsingBloom h) rs ?g1"
  let ?ids = "map Id' (filter isPush rs)"
  have keys: "set (keys_of (pushEventMap ?g)) = set ?ids"
    by (simp add: fold_Bloom_globals fold_Map_keys init_globals_simps keys_of_empty)
  have full: "blomfil ?g = fold (AddString h) ?ids (NewWithEstimates est 12000)"
    by (simp add: fold_Bloom_globals fold_Map_globals init_globals_simps)
  have half: "halfblomfil ?g = fold (AddString h) ?ids (NewWithEstimates est 6000)"
    by (simp add: fold_Bloom_globals fold_Map_globals init_globals_simps)
  have "\<forall>k \<in> set (keys_of (pushEventMap ?g)).
          TestString h k (blomfil ?g) \<and> TestString h k (halfblomfil ?g)"
    unfolding keys full half
    by (auto intro!: TestString_after_add NewWithEstimates_ok)
  then have "Confirm h ?g = (length (keys_of (pushEventMap ?g)), 0, length (keys_of (pushEventMap ?g)), 0)"
    unfolding Confirm_def using Confirm_fold_all_hit[where ks = "keys_of (pushEventMap ?g)" and h = h and g = ?g and a = 0 and b = 0 and c = 0 and d = 0]
    by simp
  then show ?thesis by (simp add: card_keys)
qed

text \<open>
  Claim C2. An identifier that was inserted into an estimator tests true right after its
  insertion and after any further insertions. The estimator is any one that \<open>New\<close>
  builds, after any earlier insertions; \<open>later\<close> may be empty.
\<close>

theorem no_false_negatives:
  "TestString h s
     (fold (AddString h) later (AddString h s (fold (AddString h) earlier (New m k))))"
proof -
  have "bf_ok (fold (AddString h) earlier (New m k))"
    by (simp add: fold_AddString_ok New_ok)
  then show ?thesis
    using TestString_after_add[where f = "fold (AddString h) earlier (New m k)" and s = s and ids = "s # later" and h = h]
    by simp
qed

text \<open>
  Claim C6. Inserting an identifier \<open>N \<ge> 1\<close> times leaves the estimator in the state that
  one insertion leaves it in: every test answers the same and the serialised bytes are
  equal. The estimator is any one that \<open>New\<close> builds, after any earlier insertions.
\<close>

theorem idempotent_insertion:
  assumes "1 \<le> N"
  shows "(\<forall>q. TestString h q ((AddString h s ^^ N) (fold (AddString h) earlier (New m k)))
               = TestString h q (AddString h s (fold (AddString h) earlier (New m k)))) \<and>
         GobEncode ((AddString h s ^^ N) (fold (AddString h) earlier (New m k)))
           = GobEncode (AddString h s (fold (AddString h) earlier (New m k)))"
proof -
  have "bf_ok (fold (AddString h) earlier (New m k))"
    by (simp add: fold_AddString_ok New_ok)
  then have "(AddString h s ^^ N) (fold (AddString h) earlier (New m k))
             = AddString h s (fold (AddString h) earlier (New m k))"
    using assms by (rule AddString_repeat)
  then show ?thesis by simp
qed

text \<open>Three insertions of one identifier into a 64-bit estimator that holds another.\<close>

theorem idempotent_insertion_witness:
  "(1::nat) \<le> 3 \<and>
   (\<forall>q. TestString demo_hash q ((AddString demo_hash ''4242'' ^^ 3) (fold (AddString demo_hash) [''17''] (New 64 2)))
        = TestString demo_hash q (AddString demo_hash ''4242'' (fold (AddString demo_hash) [''17''] (New 64 2)))) \<and>
   GobEncode ((AddString demo_hash ''4242'' ^^ 3) (fold (AddString demo_hash) [''17''] (New 64 2)))
     = GobEncode (AddString demo_hash ''4242'' (fold (AddString demo_hash) [''17''] (New 64 2)))"
proof -
  have h: "(1::nat) \<le> 3" by simp
  show ?thesis
    using h idempotent_insertion[OF h, of demo_hash "''4242''" "[''17'']" 64 2] by blast
qed

text \<open>
  Claim C7. Decoding the bytes that \<open>GobEncode\<close> writes for an estimator gives the
  estimator back, so that every test, of an inserted identifier or of any other, answers
  as before. The estimator is any one that \<open>New\<close> builds from a size and a hash count
  that fit 64 bits, after any insertions.
\<close>

theorem serialisation_round_trip:
  assumes "m < 2 ^ 64" "k < 2 ^ 64"
  shows "(case GobEncode (fold (AddString h) ids (New m k)) of
            Inl err \<Rightarrow> False
          | Inr bytes \<Rightarrow>
              (case GobDecode bytes of
                 Inl err \<Rightarrow> False
               | Inr f' \<Rightarrow>
                   f' = fold (AddString h) ids (New m k) \<and>
                   (\<forall>q. TestString h q f' = TestString h q (fold (AddString h) ids (New m k)))))"
proof -
  let ?f = "fold (AddString h) ids (New m k)"
  have ok: "bf_ok ?f" by (simp add: fold_AddString_ok New_ok)
  have bm: "bf_m ?f < 2 ^ 64" using assms(1) by (simp add: New_def)
  have bk: "bf_k ?f < 2 ^ 64" using assms(2) by (simp add: New_def)
  have "max 1 m < 2 ^ 64" using assms(1) by simp
  then have bl: "length_b (bf_b ?f) < 2 ^ 64"
    using length_b_reachable[of h ids m k] by (rule order.strict_trans1[rotated])
  have "GobDecode (WriteTo ?f) = Inr ?f"
    using ok bm bk bl by (rule GobDecode_GobEncode)
  then show ?thesis by (simp add: GobEncode_def)
qed

text \<open>A 64-bit estimator with two identifiers.\<close>

theorem serialisation_round_trip_witness:
  "(64::nat) < 2 ^ 64 \<and> (2::nat) < 2 ^ 64 \<and>
   (case GobEncode (fold (AddString demo_hash) [''17'', ''4242''] (New 64 2)) of
            Inl err \<Rightarrow> False
          | Inr bytes \<Rightarrow>
              (case GobDecode bytes of
                 Inl err \<Rightarrow> False
               | Inr f' \<Rightarrow>
                   f' = fold (AddString demo_hash) [''17'', ''4242''] (New 64 2) \<and>
                   (\<forall>q. TestString demo_hash q f' = TestString demo_hash q (fold (AddString demo_hash) [''17'', ''4242''] (New 64 2)))))"
proof -
  have a: "(64::nat) < 2 ^ 64" and b: "(2::nat) < 2 ^ 64" by simp_all
  show ?thesis
    using a b serialisation_round_trip[OF a b, of demo_hash "[''17'', ''4242'']"] by blast
qed

text \<open>
  Claim C8. Processing a permutation of a record sequence ends in the same exact-set
  contents and the same two estimator states as processing the sequence itself.
\<close>

theorem order_insensitive:
  assumes "mset rs' = mset rs"
  shows "DAList.lookup (pushEventMap
           (fold (ProcessChunkUsingBloom h) rs' (fold ProcessChunkUsingMap rs' (init_globals est))))
         = DAList.lookup (pushEventMap
           (fold (ProcessChunkUsingBloom h) rs (fold ProcessChunkUsingMap rs (init_globals est)))) \<and>
         blomfil (fold (ProcessChunkUsingBloom h) rs' (fold ProcessChunkUsingMap rs' (init_globals est)))
         = blomfil (fold (ProcessChunkUsingBloom h) rs (fold ProcessChunkUsingMap rs (init_globals est))) \<and>
         halfblomfil (fold (ProcessChunkUsingBloom h) rs' (fold ProcessChunkUsingMap rs' (init_globals est)))
         = halfblomfil (fold (ProcessChunkUsingBloom h) rs (fold ProcessChunkUsingMap rs (init_globals est)))"
proof -
  have s: "set (filter isPush rs') = set (filter isPush rs)"
    using assms by (rule set_filter_mset)
  then have ids: "set (map Id' (filter isPush rs')) = set (map Id' (filter isPush rs))"
    by simp
  have "fold (AddString h) (map Id' (filter isPush rs')) (NewWithEstimates est n)
        = fold (AddString h) (map Id' (filter isPush rs)) (NewWithEstimates est n)" for n
    using NewWithEstimates_ok ids by (rule fold_AddString_cong)
  moreover have "{x \<in> set rs'. isPush x} = {x \<in> set rs. isPush x}"
    using s by simp
  ultimately show ?thesis
    by (simp add: fold_Bloom_globals fold_Map_globals fold_Map_lookup init_globals_simps)
qed

text \<open>The spec's three records, and the same three with the last one first.\<close>

theorem order_insensitive_witness:
  "mset [rec3, rec1, rec2] = mset [rec1, rec2, rec3] \<and>
   DAList.lookup (pushEventMap
     (fold (ProcessChunkUsingBloom demo_hash) [rec3, rec1, rec2]
        (fold ProcessChunkUsingMap [rec3, rec1, rec2] (init_globals demo_est))))
   = DAList.lookup (pushEventMap
     (fold (ProcessChunkUsingBloom demo_hash) [rec1, rec2, rec3]
        (fold ProcessChunkUsingMap [rec1, rec2, rec3] (init_globals demo_est)))) \<and>
   blomfil (fold (ProcessChunkUsingBloom demo_hash) [rec3, rec1, rec2]
        (fold ProcessChunkUsingMap [rec3, rec1, rec2] (init_globals demo_est)))
   = blomfil (fold (ProcessChunkUsingBloom demo_hash) [rec1, rec2, rec3]
        (fold ProcessChunkUsingMap [rec1, rec2, rec3] (init_globals demo_est))) \<and>
   halfblomfil (fold (ProcessChunkUsingBloom demo_hash) [rec3, rec1, rec2]
        (fold ProcessChunkUsingMap [rec3, rec1, rec2] (init_globals demo_est)))
   = halfblomfil (fold (ProcessChunkUsingBloom demo_hash) [rec1, rec2, rec3]
        (fold ProcessChunkUsingMap [rec1, rec2, rec3] (init_globals demo_est)))"
proof -
  have p: "mset [rec3, rec1, rec2] = mset [rec1, rec2, rec3]"
    by (simp add: add_mset_commute)
  show ?thesis
    using p order_insensitive[OF p, of demo_hash demo_est] by blast
qed

text \<open>
  Claim C4. An identifier reaches the exact set or the estimators exactly when its record
  has the type \<^verbatim>\<open>PushEvent\<close>: after a pass the keys of the exact set are the identifiers
  of the \<^verbatim>\<open>PushEvent\<close> records, and each estimator is what the insertions of those
  identifiers alone make of it; a \<^verbatim>\<open>PushEvent\<close> record stores its identifier in the map
  or adds it to both estimators, and any other record leaves the whole state as it was.
  Neither processor has an error result.
\<close>

theorem classifier_selectivity:
  "set (keys_of (pushEventMap (fold ProcessChunkUsingMap rs (init_globals est))))
     = Id' ` set (filter (\<lambda>r. Type r = ''PushEvent'') rs) \<and>
   blomfil (fold (ProcessChunkUsingBloom h) rs g)
     = fold (AddString h) (map Id' (filter (\<lambda>r. Type r = ''PushEvent'') rs)) (blomfil g) \<and>
   halfblomfil (fold (ProcessChunkUsingBloom h) rs g)
     = fold (AddString h) (map Id' (filter (\<lambda>r. Type r = ''PushEvent'') rs)) (halfblomfil g) \<and>
   (Type md = ''PushEvent'' \<longrightarrow>
      ProcessChunkUsingMap md g = g\<lparr>pushEventMap := DAList.update (Id' md) True (pushEventMap g)\<rparr> \<and>
      ProcessChunkUsingBloom h md g
        = g\<lparr>blomfil := AddString h (Id' md) (blomfil g),
             halfblomfil := AddString h (Id' md) (halfblomfil g)\<rparr>) \<and>
   (Type md \<noteq> ''PushEvent'' \<longrightarrow>
      ProcessChunkUsingMap md g = g \<and> ProcessChunkUsingBloom h md g = g)"
proof -
  have "set (keys_of (pushEventMap (fold ProcessChunkUsingMap rs (init_globals est))))
        = Id' ` set (filter isPush rs)"
    by (simp add: fold_Map_keys init_globals_simps keys_of_empty)
  then show ?thesis
    unfolding filter_isPush
    by (simp add: fold_Bloom_globals ProcessChunkUsingMap_def ProcessChunkUsingBloom_def)
qed

text \<open>
  The spec's example: of the records 1 (push), 22 (watch) and 333 (push), the exact set
  holds 1 and 333.
\<close>

theorem classifier_selectivity_witness:
  "set (keys_of (pushEventMap (fold ProcessChunkUsingMap [rec1, rec2, rec3] (init_globals demo_est))))
     = {''1'', ''333''} \<and>
   Type rec1 = ''PushEvent'' \<and>
   ProcessChunkUsingMap rec1 (init_globals demo_est)
     = (init_globals demo_est)\<lparr>pushEventMap :=
          DAList.update ''1'' True (pushEventMap (init_globals demo_est))\<rparr> \<and>
   ProcessChunkUsingBloom demo_hash rec1 (init_globals demo_est)
     = (init_globals demo_est)\<lparr>blomfil := AddString demo_hash ''1'' (blomfil (init_globals demo_est)),
          halfblomfil := AddString demo_hash ''1'' (halfblomfil (init_globals demo_est))\<rparr> \<and>
   Type rec2 \<noteq> ''PushEvent'' \<and>
   ProcessChunkUsingMap rec2 (init_globals demo_est) = init_globals demo_est \<and>
   ProcessChunkUsingBloom demo_hash rec2 (init_globals demo_est) = init_globals demo_est"
  using classifier_selectivity[of "[rec1, rec2, rec3]" demo_est demo_hash "init_globals demo_est" rec1]
        classifier_selectivity[of "[rec1, rec2, rec3]" demo_est demo_hash "init_globals demo_est" rec2]
  by (auto simp: rec_simps)

text \<open>
  Claim C5, which the code does not meet. The claim: the streaming reader logs a record
  that fails to decode, skips it and goes on with the records after it; the whole-buffer
  reader ends the process on a decode failure. The streaming loop does log the error and
  go round again, but on a malformed record the decoder does not get past it: every
  further \<^verbatim>\<open>Decode\<close> returns the same error and \<^verbatim>\<open>More\<close> stays true, so that the loop
  logs for ever, the record after it is never processed and neither the pass nor the
  run ends. A record that is well-formed JSON of the wrong type is logged and skipped, as
  the claim says.
\<close>

theorem malformed_record_stalls_stream:
  "readAllStreamingInternal (Inr malformed_body) ProcessChunkUsingMap (init_globals demo_est, [])
     = None \<and>
   main demo_hash demo_est env_malformed = None \<and>
   readAllStreamingInternal (Inr mistyped_body) ProcessChunkUsingMap (init_globals demo_est, [])
     = Some (Inr (fold ProcessChunkUsingMap [rec1, rec3] (init_globals demo_est),
                  [DecodingErr ''cannot unmarshal number into string'', Entries 2])) \<and>
   readAllInMemoryInternal (Inr broken_buffer) ProcessChunkUsingMap (init_globals demo_est, [])
     = Inl (Fatal ''Error Unmarshalling data into memory: unexpected value'')"
proof -
  have t: "token_err malformed_body = None" "list_ex malformed (elements malformed_body)"
    by (simp_all add: malformed_body_def)
  have stall: "readAllStreamingInternal (Inr malformed_body) proc st = None" for proc st
    using t by (rule stream_stalls_on_malformed)
  have "setupTracing env_malformed (main_cfg env_malformed) = Inr True"
    by (simp add: env_malformed_def demo_env_def main_cfg_def flag_Bool_def setupTracing_def)
  moreover have "fetch_map_pass env_malformed = Inr malformed_body"
    by (simp add: env_malformed_def demo_env_def)
  ultimately have run: "main demo_hash demo_est env_malformed = None"
    by (simp add: main_def ReadAllStreaming_def stall)
  have u: "token_err mistyped_body = None" "\<not> list_ex malformed (elements mistyped_body)"
    by (simp_all add: mistyped_body_def)
  have skip: "readAllStreamingInternal (Inr mistyped_body) ProcessChunkUsingMap (init_globals demo_est, [])
     = Some (Inr (fold ProcessChunkUsingMap [rec1, rec3] (init_globals demo_est),
                  [DecodingErr ''cannot unmarshal number into string'', Entries 2]))"
    using stream_skips_mistyped[OF u, of ProcessChunkUsingMap "init_globals demo_est" "[]"]
    by (simp add: mistyped_body_def)
  have whole: "readAllInMemoryInternal (Inr broken_buffer) ProcessChunkUsingMap (init_globals demo_est, [])
     = Inl (Fatal ''Error Unmarshalling data into memory: unexpected value'')"
    using buffer_decode_failure_fatal[of broken_buffer "''unexpected value''"]
    by (simp add: broken_buffer_def)
  show ?thesis using stall run skip whole by simp
qed

text \<open>
  Claim C9, which the code does not meet. The claim: tracing is set up if and only if the
  flag parsed from the command line is true. The code registers the flag \<^verbatim>\<open>e\<close> with the
  default \<^verbatim>\<open>true\<close> and never parses the command line, so that on the command line
  \<^verbatim>\<open>-e=false\<close> the configuration still enables tracing and the tracer is started.
\<close>

theorem tracing_ignores_command_line:
  "args env_flag_off = [''-e=false''] \<and>
   TracingEnabled (main_cfg env_flag_off) \<and>
   setupTracing env_flag_off (main_cfg env_flag_off) = Inr True"
  by (simp add: env_flag_off_def demo_env_def main_cfg_def flag_Bool_def setupTracing_def)

text \<open>
  Claim C3, which the code does not meet. The claim: a run whose output file cannot be
  created, or whose compressed write fails, ends there. In the code \<open>Save\<close> returns the
  creation error to \<open>main\<close>, which drops it, and returns no error at all for a failed
  write; the run goes on to \<^verbatim>\<open>Confirm\<close> and ends normally.
\<close>

theorem persistence_failure_not_fatal:
  "Save env_save_fails ''mapBytes.gob'' [] = Some ''permission denied'' \<and>
   write_err env_save_fails ''bloomBytes.gob'' = Some ''no space left on device'' \<and>
   (\<forall>data. Save env_save_fails ''bloomBytes.gob'' data = None) \<and>
   main demo_hash demo_est env_save_fails
     = Some (Inr [Entries 3, Entries 3, Tally (2, 0, 2, 0)])"
proof -
  define g1 where "g1 = fold ProcessChunkUsingMap [rec1, rec2, rec3] (init_globals demo_est)"
  define g2 where "g2 = fold (ProcessChunkUsingBloom demo_hash) [rec1, rec2, rec3] g1"
  have env:
    "setupTracing env_save_fails (main_cfg env_save_fails) = Inr True"
    "gob_map env_save_fails = (\<lambda>m. Inr [])"
    "trace_close_err env_save_fails = None"
    by (simp_all add: env_save_fails_def demo_env_def main_cfg_def flag_Bool_def setupTracing_def
          TRACE_FILE_def)
  have pass: "ReadAllStreaming True (Inr demo_body) proc (g, lg)
              = Some (Inr (fold proc [rec1, rec2, rec3] g, lg @ [Entries 3]))" for proc g lg
    using stream_skips_mistyped[of demo_body proc g lg]
    by (simp add: ReadAllStreaming_def demo_body_def)
  have p1: "ReadAllStreaming True (fetch_map_pass env_save_fails) ProcessChunkUsingMap
              (init_globals demo_est, []) = Some (Inr (g1, [Entries 3]))"
    using pass[of ProcessChunkUsingMap "init_globals demo_est" "[]"]
    by (simp add: g1_def env_save_fails_def demo_env_def)
  have p2: "ReadAllStreaming True (fetch_bloom_pass env_save_fails) (ProcessChunkUsingBloom demo_hash)
              (g1, [Entries 3]) = Some (Inr (g2, [Entries 3, Entries 3]))"
    using pass[of "ProcessChunkUsingBloom demo_hash" g1 "[Entries 3]"]
    by (simp add: g2_def env_save_fails_def demo_env_def)
  have tally: "Confirm demo_hash g2 = (2, 0, 2, 0)"
    unfolding g2_def g1_def by code_simp
  have "main demo_hash demo_est env_save_fails
        = Some (Inr [Entries 3, Entries 3, Tally (2, 0, 2, 0)])"
    by (simp add: main_def env p1 p2 GobEncode_def tally)
  then show ?thesis
    by (simp add: Save_def env_save_fails_def demo_env_def)
qed

end
